theory Spec2Isabelle
  imports Main
begin

section \<open>Identifiers\<close>

text \<open>
  \<open>frame_id_t\<close> and \<open>page_id_t\<close> are 32-bit signed integers in the source. A frame
  identifier is only ever an index into the frame array (the constructor hands out
  \<open>0 .. pool_size - 1\<close>), so it is a natural number here, and the sentinel \<open>-1\<close> that
  \<open>PickVictimFrame\<close> returns for "no frame" is the value \<open>None\<close>. Page identifiers stay
  integers.
\<close>

type_synonym frame_id_t = nat
type_synonym page_id_t = int
type_synonym payload = string

section \<open>LRU replacer (lru\_replacer.cpp)\<close>

text \<open>
  \<open>frame_list_\<close> is a \<open>std::list\<close>; the head of the HOL list is \<open>front()\<close>, its last
  element is \<open>back()\<close>. \<open>iter_map_\<close> maps a frame id to the list iterator of its node.
  An iterator is stored under key \<open>f\<close> only by \<open>Unpin\<close>, right after the node holding
  \<open>f\<close> has been pushed, and the key is erased together with the node; so the map is
  represented by its key set, and erasing the node behind the iterator of \<open>f\<close> removes
  \<open>f\<close> from the list.
\<close>

record LRUReplacer =
  lru_frame_list :: "frame_id_t list"
  lru_iter_map :: "frame_id_t set"

definition LRUReplacer_init :: LRUReplacer where
  "LRUReplacer_init = \<lparr>lru_frame_list = [], lru_iter_map = {}\<rparr>"

text \<open>\<open>Victim\<close>: the result \<open>None\<close> is the return value \<open>false\<close> (the out parameter is untouched).\<close>

definition lru_Victim :: "LRUReplacer \<Rightarrow> frame_id_t option \<times> LRUReplacer" where
  "lru_Victim r =
    (if lru_frame_list r = [] then (None, r)
     else
       let last_id = last (lru_frame_list r) in
       (Some last_id,
        r\<lparr>lru_iter_map := lru_iter_map r - {last_id},
          lru_frame_list := butlast (lru_frame_list r)\<rparr>))"

definition lru_Pin :: "frame_id_t \<Rightarrow> LRUReplacer \<Rightarrow> LRUReplacer" where
  "lru_Pin frame_id r =
    (if frame_id \<notin> lru_iter_map r then r
     else r\<lparr>lru_frame_list := remove1 frame_id (lru_frame_list r),
            lru_iter_map := lru_iter_map r - {frame_id}\<rparr>)"

definition lru_Unpin :: "frame_id_t \<Rightarrow> LRUReplacer \<Rightarrow> LRUReplacer" where
  "lru_Unpin frame_id r =
    (if frame_id \<in> lru_iter_map r then r
     else r\<lparr>lru_frame_list := frame_id # lru_frame_list r,
            lru_iter_map := insert frame_id (lru_iter_map r)\<rparr>)"

definition lru_Size :: "LRUReplacer \<Rightarrow> nat" where
  "lru_Size r = length (lru_frame_list r)"

text \<open>Calling \<open>Unpin\<close> on a sequence of frames, and \<open>Victim\<close> a number of times.\<close>

fun lru_unpins :: "frame_id_t list \<Rightarrow> LRUReplacer \<Rightarrow> LRUReplacer" where
  "lru_unpins [] r = r"
| "lru_unpins (f # fs) r = lru_unpins fs (lru_Unpin f r)"

fun lru_victims :: "nat \<Rightarrow> LRUReplacer \<Rightarrow> frame_id_t option list \<times> LRUReplacer" where
  "lru_victims 0 r = ([], r)"
| "lru_victims (Suc n) r =
    (case lru_Victim r of (v, r') \<Rightarrow>
      (case lru_victims n r' of (vs, r'') \<Rightarrow> (v # vs, r'')))"

section \<open>CLOCK replacer (clock\_replacer.cpp)\<close>

text \<open>
  \<open>frame_list_\<close> is a \<open>std::list\<close> (head = \<open>begin()\<close>), \<open>ref_map_\<close> an \<open>unordered_map\<close>
  from frame ids to reference bits, \<open>iter_map_\<close> the map from frame ids to list
  iterators, represented by its key set as for the LRU replacer. \<open>clock_hand_\<close> is a
  list iterator: \<open>Some f\<close> is the iterator of the node that holds \<open>f\<close>, \<open>None\<close> is
  \<open>end()\<close>. Iterators of a \<open>std::list\<close> keep designating their node when other nodes are
  inserted or erased, and \<open>end()\<close> stays \<open>end()\<close> after \<open>push_back\<close>; so \<open>Unpin\<close> leaves
  the hand as it is.
\<close>

record ClockReplacer =
  clk_frame_list :: "frame_id_t list"
  ref_map :: "frame_id_t \<rightharpoonup> bool"
  clk_iter_map :: "frame_id_t set"
  clock_hand :: "frame_id_t option"

definition ClockReplacer_init :: ClockReplacer where
  "ClockReplacer_init =
    \<lparr>clk_frame_list = [], ref_map = Map.empty, clk_iter_map = {}, clock_hand = None\<rparr>"

text \<open>\<open>begin()\<close> of a list: its first node, or \<open>end()\<close> when the list is empty.\<close>

fun list_begin :: "'a list \<Rightarrow> 'a option" where
  "list_begin [] = None"
| "list_begin (x # xs) = Some x"

text \<open>\<open>++it\<close> for the iterator of the node that holds \<open>f\<close>: the next node, or \<open>end()\<close>.\<close>

fun iter_next :: "'a list \<Rightarrow> 'a \<Rightarrow> 'a option" where
  "iter_next [] f = None"
| "iter_next (x # xs) f = (if x = f then list_begin xs else iter_next xs f)"

text \<open>
  Reading \<open>ref_map_[f]\<close>: \<open>operator[]\<close> of an \<open>unordered_map\<close> inserts the value \<open>false\<close>
  for a key that is missing and returns it.
\<close>

definition ref_get :: "(frame_id_t \<rightharpoonup> bool) \<Rightarrow> frame_id_t \<Rightarrow> bool" where
  "ref_get m f = (case m f of None \<Rightarrow> False | Some b \<Rightarrow> b)"

definition PinThread :: "frame_id_t \<Rightarrow> ClockReplacer \<Rightarrow> ClockReplacer" where
  "PinThread frame_id s =
    (if frame_id \<notin> clk_iter_map s then s
     else
       let s1 = (if clock_hand s = Some frame_id
                 then s\<lparr>clock_hand := iter_next (clk_frame_list s) frame_id\<rparr> else s)
       in s1\<lparr>clk_frame_list := remove1 frame_id (clk_frame_list s1),
             ref_map := (ref_map s1)(frame_id := None),
             clk_iter_map := clk_iter_map s1 - {frame_id}\<rparr>)"

definition clk_Pin :: "frame_id_t \<Rightarrow> ClockReplacer \<Rightarrow> ClockReplacer" where
  "clk_Pin frame_id s = PinThread frame_id s"

definition clk_Unpin :: "frame_id_t \<Rightarrow> ClockReplacer \<Rightarrow> ClockReplacer" where
  "clk_Unpin frame_id s =
    (if frame_id \<in> clk_iter_map s then s\<lparr>ref_map := (ref_map s)(frame_id \<mapsto> True)\<rparr>
     else s\<lparr>clk_frame_list := clk_frame_list s @ [frame_id],
            ref_map := (ref_map s)(frame_id \<mapsto> True),
            clk_iter_map := insert frame_id (clk_iter_map s)\<rparr>)"

text \<open>
  The \<open>while (true)\<close> loop of \<open>Victim\<close>, with fuel: one unit per iteration, and \<open>None\<close>
  when the fuel is used up before the loop returns. The loop is entered with a list
  that is not empty and erases nothing before it returns, so \<open>begin()\<close> is a node;
  dereferencing \<open>end()\<close> is undefined in C++ and is \<open>None\<close> as well.
\<close>

fun Victim_loop :: "nat \<Rightarrow> ClockReplacer \<Rightarrow> (frame_id_t \<times> ClockReplacer) option" where
  "Victim_loop 0 s = None"
| "Victim_loop (Suc n) s =
    (let s1 = (if clock_hand s = None
               then s\<lparr>clock_hand := list_begin (clk_frame_list s)\<rparr> else s)
     in case clock_hand s1 of
          None \<Rightarrow> None
        | Some f_id \<Rightarrow>
            let b = ref_get (ref_map s1) f_id;
                s2 = s1\<lparr>ref_map := (ref_map s1)(f_id \<mapsto> b)\<rparr>
            in if \<not> b then Some (f_id, PinThread f_id s2)
               else Victim_loop n
                      (s2\<lparr>ref_map := (ref_map s2)(f_id \<mapsto> False),
                          clock_hand := iter_next (clk_frame_list s2) f_id\<rparr>))"

text \<open>
  \<open>Victim\<close>: \<open>Some (None, s)\<close> is the return value \<open>false\<close>, \<open>Some (Some f, s')\<close> the return
  value \<open>true\<close> with \<open>f\<close> in the out parameter, \<open>None\<close> a loop that is still running when
  the fuel is used up.
\<close>

definition clk_Victim :: "nat \<Rightarrow> ClockReplacer \<Rightarrow> (frame_id_t option \<times> ClockReplacer) option" where
  "clk_Victim fuel s =
    (if clk_frame_list s = [] then Some (None, s)
     else map_option (\<lambda>(f, s'). (Some f, s')) (Victim_loop fuel s))"

definition clk_Size :: "ClockReplacer \<Rightarrow> nat" where
  "clk_Size s = length (clk_frame_list s)"

text \<open>
  The states the public operations produce: the entries of the list are distinct, the
  keys of \<open>iter_map_\<close> are the entries of the list, and the hand is \<open>end()\<close> or a node of
  the list.
\<close>

definition clk_wf :: "ClockReplacer \<Rightarrow> bool" where
  "clk_wf s =
    (distinct (clk_frame_list s) \<and> clk_iter_map s = set (clk_frame_list s) \<and>
     (case clock_hand s of None \<Rightarrow> True | Some h \<Rightarrow> h \<in> set (clk_frame_list s)))"

text \<open>
  The entries in the order in which the hand meets them: from the hand to the end of
  the list, then from the beginning of the list up to the hand.
\<close>

definition clock_order :: "ClockReplacer \<Rightarrow> frame_id_t list" where
  "clock_order s =
    (case clock_hand s of
       None \<Rightarrow> clk_frame_list s
     | Some h \<Rightarrow> dropWhile (\<lambda>x. x \<noteq> h) (clk_frame_list s) @
                 takeWhile (\<lambda>x. x \<noteq> h) (clk_frame_list s))"

text \<open>
  The entries the hand passes over: those before the first entry, in hand order, whose
  reference bit is false (all of them when every bit is set). The chosen entry: the
  first one, in hand order, whose bit is false; when every bit is set, the entry under
  the hand, which the hand meets again after a full sweep has cleared its bit.
\<close>

definition passed_over :: "ClockReplacer \<Rightarrow> frame_id_t list" where
  "passed_over s = takeWhile (ref_get (ref_map s)) (clock_order s)"

definition chosen :: "ClockReplacer \<Rightarrow> frame_id_t" where
  "chosen s =
    (case dropWhile (ref_get (ref_map s)) (clock_order s) of
       [] \<Rightarrow> hd (clock_order s)
     | v # _ \<Rightarrow> v)"

fun clear_bits :: "frame_id_t list \<Rightarrow> (frame_id_t \<rightharpoonup> bool) \<Rightarrow> (frame_id_t \<rightharpoonup> bool)" where
  "clear_bits [] m = m"
| "clear_bits (f # fs) m = clear_bits fs (m(f \<mapsto> False))"

section \<open>Page store\<close>

text \<open>
  Modelled from the spec: the disk manager (\<open>ReadPage\<close>, \<open>WritePage\<close>, \<open>AllocatePage\<close>,
  \<open>DeallocatePage\<close>) is an external collaborator whose code is not part of the buffer
  pool. \<open>store\<close> is the payload the page store holds for each page id, \<open>next_page_id\<close>
  the next fresh identifier, and \<open>calls\<close> the log of the calls made so far, oldest first.
\<close>

datatype disk_event =
  ReadPage page_id_t
| WritePage page_id_t payload
| AllocatePage page_id_t
| DeallocatePage page_id_t

record DiskManager =
  store :: "page_id_t \<Rightarrow> payload"
  next_page_id :: page_id_t
  calls :: "disk_event list"

definition disk_ReadPage :: "page_id_t \<Rightarrow> DiskManager \<Rightarrow> payload \<times> DiskManager" where
  "disk_ReadPage p d = (store d p, d\<lparr>calls := calls d @ [ReadPage p]\<rparr>)"

definition disk_WritePage :: "page_id_t \<Rightarrow> payload \<Rightarrow> DiskManager \<Rightarrow> DiskManager" where
  "disk_WritePage p buf d = d\<lparr>store := (store d)(p := buf), calls := calls d @ [WritePage p buf]\<rparr>"

definition disk_AllocatePage :: "DiskManager \<Rightarrow> page_id_t \<times> DiskManager" where
  "disk_AllocatePage d =
    (next_page_id d,
     d\<lparr>next_page_id := next_page_id d + 1, calls := calls d @ [AllocatePage (next_page_id d)]\<rparr>)"

definition disk_DeallocatePage :: "page_id_t \<Rightarrow> DiskManager \<Rightarrow> DiskManager" where
  "disk_DeallocatePage p d = d\<lparr>calls := calls d @ [DeallocatePage p]\<rparr>"

section \<open>Frames\<close>

text \<open>
  Modelled from the spec: the \<open>Page\<close> class (fields \<open>page_id_\<close>, \<open>data_\<close>, \<open>pin_count_\<close>,
  \<open>is_dirty_\<close>, and \<open>ResetMemory\<close>, which zeroes the payload) and the constants
  \<open>PAGE_SIZE\<close> and \<open>INVALID_PAGE_ID\<close> are declared in headers that are not among the
  sources. No result below depends on the value of \<open>PAGE_SIZE\<close>, which is never
  unfolded. \<open>pin_count_\<close> is a signed C++ \<open>int\<close> (the code compares it with \<open><= 0\<close>);
  it is an unbounded integer here: the code changes it only by assigning 1 and by
  decrementing, so the 32-bit range is left only after \<open>2^31\<close> calls of Unpin on one page.
\<close>

record Page =
  page_id :: page_id_t
  data :: payload
  pin_count :: int
  is_dirty :: bool

definition PAGE_SIZE :: nat where
  "PAGE_SIZE = 4096"

definition INVALID_PAGE_ID :: page_id_t where
  "INVALID_PAGE_ID = - 1"

definition zero_payload :: payload where
  "zero_payload = replicate PAGE_SIZE (CHR 0x00)"

definition ResetMemory :: "Page \<Rightarrow> Page" where
  "ResetMemory pg = pg\<lparr>data := zero_payload\<rparr>"

definition Page_init :: Page where
  "Page_init = \<lparr>page_id = INVALID_PAGE_ID, data = zero_payload, pin_count = 0, is_dirty = False\<rparr>"

section \<open>Buffer pool manager (buffer\_pool\_manager.cpp)\<close>

text \<open>
  \<open>pages\<close> is the frame array \<open>pages_\<close> (\<open>pages_ + f\<close> is \<open>pages ! f\<close>), \<open>page_table\<close> the
  \<open>unordered_map\<close> from page ids to frame ids, \<open>free_list\<close> the \<open>std::list\<close> of free frames
  (head = \<open>front()\<close>). The replacer is the LRU replacer, as the constructor creates it.
  A returned \<open>Page *\<close> is the index of its frame; \<open>nullptr\<close> is \<open>None\<close>.
\<close>

record BufferPoolManager =
  pool_size :: nat
  pages :: "Page list"
  page_table :: "page_id_t \<rightharpoonup> frame_id_t"
  free_list :: "frame_id_t list"
  replacer :: LRUReplacer
  disk_manager :: DiskManager

definition BufferPoolManager_init :: "nat \<Rightarrow> DiskManager \<Rightarrow> BufferPoolManager" where
  "BufferPoolManager_init n d =
    \<lparr>pool_size = n, pages = replicate n Page_init, page_table = Map.empty,
     free_list = [0..<n], replacer = LRUReplacer_init, disk_manager = d\<rparr>"

definition PickVictimFrame :: "BufferPoolManager \<Rightarrow> frame_id_t option \<times> BufferPoolManager" where
  "PickVictimFrame s =
    (if free_list s \<noteq> [] then (Some (hd (free_list s)), s\<lparr>free_list := tl (free_list s)\<rparr>)
     else
       (case lru_Victim (replacer s) of
          (None, r) \<Rightarrow> (None, s\<lparr>replacer := r\<rparr>)
        | (Some frame_id, r) \<Rightarrow>
            let page = pages s ! frame_id;
                pid = page_id page;
                s1 = s\<lparr>replacer := r, page_table := (page_table s)(pid := None)\<rparr>
            in (Some frame_id,
                if is_dirty page
                then s1\<lparr>disk_manager := disk_WritePage pid (data page) (disk_manager s1)\<rparr>
                else s1)))"

definition AllPagesPinned :: "BufferPoolManager \<Rightarrow> bool" where
  "AllPagesPinned s = list_all (\<lambda>i. \<not> pin_count (pages s ! i) \<le> 0) [0..<pool_size s]"

definition FetchPageImpl :: "page_id_t \<Rightarrow> BufferPoolManager \<Rightarrow> frame_id_t option \<times> BufferPoolManager" where
  "FetchPageImpl pid s =
    (case page_table s pid of
       Some f \<Rightarrow>
         if pin_count (pages s ! f) > 0 then (Some f, s)
         else (Some f, s\<lparr>replacer := lru_Pin f (replacer s)\<rparr>)
     | None \<Rightarrow>
         (case PickVictimFrame s of
            (None, s1) \<Rightarrow> (None, s1)
          | (Some frame_id, s1) \<Rightarrow>
              let s2 = s1\<lparr>page_table := (page_table s1)(pid \<mapsto> frame_id)\<rparr>;
                  page = (ResetMemory ((pages s2 ! frame_id)\<lparr>page_id := pid\<rparr>))
                           \<lparr>pin_count := 1, is_dirty := False\<rparr>;
                  (buf, d) = disk_ReadPage pid (disk_manager s2)
              in (Some frame_id,
                  s2\<lparr>pages := (pages s2)[frame_id := page\<lparr>data := buf\<rparr>], disk_manager := d\<rparr>)))"

definition UnpinPageImpl :: "page_id_t \<Rightarrow> bool \<Rightarrow> BufferPoolManager \<Rightarrow> bool \<times> BufferPoolManager" where
  "UnpinPageImpl pid dirty s =
    (case page_table s pid of
       None \<Rightarrow> (False, s)
     | Some f \<Rightarrow>
         let page = (pages s ! f)\<lparr>pin_count := pin_count (pages s ! f) - 1\<rparr>;
             s1 = s\<lparr>pages := (pages s)[f := page]\<rparr>;
             s2 = (if pin_count page \<le> 0 then s1\<lparr>replacer := lru_Unpin f (replacer s1)\<rparr> else s1);
             page2 = (pages s2 ! f)\<lparr>is_dirty := (is_dirty (pages s2 ! f) \<or> dirty)\<rparr>
         in (True, s2\<lparr>pages := (pages s2)[f := page2]\<rparr>))"

definition FlushPageImpl :: "page_id_t \<Rightarrow> BufferPoolManager \<Rightarrow> bool \<times> BufferPoolManager" where
  "FlushPageImpl pid s =
    (case page_table s pid of
       None \<Rightarrow> (False, s)
     | Some f \<Rightarrow>
         let s1 = s\<lparr>disk_manager := disk_WritePage pid (data (pages s ! f)) (disk_manager s)\<rparr>
         in (True, s1\<lparr>pages := (pages s1)[f := (pages s1 ! f)\<lparr>is_dirty := False\<rparr>]\<rparr>))"

text \<open>
  \<open>NewPage\<close> returns the new page id (the out parameter, written only on success)
  together with the frame.
\<close>

definition NewPageImpl :: "BufferPoolManager \<Rightarrow> (page_id_t \<times> frame_id_t) option \<times> BufferPoolManager" where
  "NewPageImpl s =
    (if AllPagesPinned s then (None, s)
     else
       (case PickVictimFrame s of
          (None, s1) \<Rightarrow> (None, s1)
        | (Some frame_id, s1) \<Rightarrow>
            let (pid, d) = disk_AllocatePage (disk_manager s1);
                s2 = s1\<lparr>disk_manager := d, page_table := (page_table s1)(pid \<mapsto> frame_id)\<rparr>;
                page = (ResetMemory ((pages s2 ! frame_id)\<lparr>page_id := pid\<rparr>))
                         \<lparr>pin_count := 1, is_dirty := False\<rparr>
            in (Some (pid, frame_id), s2\<lparr>pages := (pages s2)[frame_id := page]\<rparr>)))"

definition DeletePageImpl :: "page_id_t \<Rightarrow> BufferPoolManager \<Rightarrow> bool \<times> BufferPoolManager" where
  "DeletePageImpl pid s =
    (case page_table s pid of
       None \<Rightarrow> (False, s)
     | Some f \<Rightarrow>
         if pin_count (pages s ! f) > 0 then (False, s)
         else
           let s1 = s\<lparr>free_list := free_list s @ [f], page_table := (page_table s)(pid := None)\<rparr>;
               s2 = s1\<lparr>pages := (pages s1)[f := ResetMemory (pages s1 ! f)]\<rparr>
           in (True, s2\<lparr>disk_manager := disk_DeallocatePage pid (disk_manager s2)\<rparr>))"

definition FlushAllPagesImpl :: "BufferPoolManager \<Rightarrow> BufferPoolManager" where
  "FlushAllPagesImpl s = s"

subsection \<open>Sequences of public operations\<close>

datatype bpm_op =
  Fetch page_id_t
| Unpin page_id_t bool
| Flush page_id_t
| FlushAll
| NewPage
| DeletePage page_id_t

fun step :: "bpm_op \<Rightarrow> BufferPoolManager \<Rightarrow> BufferPoolManager" where
  "step (Fetch p) s = snd (FetchPageImpl p s)"
| "step (Unpin p d) s = snd (UnpinPageImpl p d s)"
| "step (Flush p) s = snd (FlushPageImpl p s)"
| "step FlushAll s = FlushAllPagesImpl s"
| "step NewPage s = snd (NewPageImpl s)"
| "step (DeletePage p) s = snd (DeletePageImpl p s)"

fun run :: "bpm_op list \<Rightarrow> BufferPoolManager \<Rightarrow> BufferPoolManager" where
  "run [] s = s"
| "run (x # xs) s = run xs (step x s)"

text \<open>An empty page store whose next fresh page id is 0.\<close>

definition disk_init :: DiskManager where
  "disk_init = \<lparr>store = (\<lambda>_. zero_payload), next_page_id = 0, calls = []\<rparr>"

text \<open>
  A caller is well behaved when it calls Unpin only for a page that is not resident or
  whose pin count is positive; \<open>well_behaved\<close> says so of every call of a sequence.
\<close>

fun caller_ok :: "bpm_op \<Rightarrow> BufferPoolManager \<Rightarrow> bool" where
  "caller_ok (Unpin p d) s =
     (case page_table s p of None \<Rightarrow> True | Some f \<Rightarrow> 0 < pin_count (pages s ! f))"
| "caller_ok _ s = True"

fun well_behaved :: "bpm_op list \<Rightarrow> BufferPoolManager \<Rightarrow> bool" where
  "well_behaved [] s = True"
| "well_behaved (x # xs) s = (caller_ok x s \<and> well_behaved xs (step x s))"

definition pins_nonneg :: "BufferPoolManager \<Rightarrow> bool" where
  "pins_nonneg s = list_all (\<lambda>pg. 0 \<le> pin_count pg) (pages s)"

text \<open>A pool of one frame over the empty page store.\<close>

definition pool1 :: BufferPoolManager where
  "pool1 = BufferPoolManager_init 1 disk_init"

text \<open>
  Two states of the CLOCK replacer: the one after Unpin of frames 0, 1, 2 and 1 again
  on the empty replacer, and one with the hand on the last entry and a clear bit
  before it.
\<close>

definition clk3 :: ClockReplacer where
  "clk3 = clk_Unpin 1 (clk_Unpin 2 (clk_Unpin 1 (clk_Unpin 0 ClockReplacer_init)))"

definition clk_mid :: ClockReplacer where
  "clk_mid =
    \<lparr>clk_frame_list = [0, 1, 3], ref_map = [0 \<mapsto> True, 1 \<mapsto> False, 3 \<mapsto> True],
     clk_iter_map = {0, 1, 3}, clock_hand = Some 3\<rparr>"

section \<open>LRU order\<close>

lemma lru_unpins_append:
  "distinct fs \<Longrightarrow> set fs \<inter> lru_iter_map r = {} \<Longrightarrow>
   lru_unpins fs r =
     r\<lparr>lru_frame_list := rev fs @ lru_frame_list r, lru_iter_map := set fs \<union> lru_iter_map r\<rparr>"
  by (induction fs arbitrary: r) (auto simp: lru_Unpin_def)

lemma lru_victims_rev:
  "lru_victims (length fs) (r\<lparr>lru_frame_list := rev fs\<rparr>) =
     (map Some fs, r\<lparr>lru_frame_list := [], lru_iter_map := lru_iter_map r - set fs\<rparr>)"
proof (induction fs arbitrary: r)
  case Nil
  show ?case by simp
next
  case (Cons f fs)
  have "lru_Victim (r\<lparr>lru_frame_list := rev (f # fs)\<rparr>) =
          (Some f, (r\<lparr>lru_iter_map := lru_iter_map r - {f}\<rparr>)\<lparr>lru_frame_list := rev fs\<rparr>)"
    by (simp add: lru_Victim_def)
  then show ?case
    using Cons.IH [of "r\<lparr>lru_iter_map := lru_iter_map r - {f}\<rparr>"]
    by (simp add: set_diff_eq)
qed

text \<open>
  C8. LRU replacer: starting from the empty replacer, after Unpin has been called on
  the distinct frames \<open>f1, ..., fk\<close> in that order (no Pin or Victim in between), the
  next \<open>k\<close> calls of Victim all succeed and return \<open>f1, ..., fk\<close> in that order, and the
  replacer is empty again.
\<close>

theorem lru_victims_in_unpin_order:
  "distinct fs \<Longrightarrow>
   lru_victims (length fs) (lru_unpins fs LRUReplacer_init) = (map Some fs, LRUReplacer_init)"
proof -
  assume d: "distinct fs"
  have u: "lru_unpins fs LRUReplacer_init =
             \<lparr>lru_frame_list = [], lru_iter_map = set fs\<rparr>\<lparr>lru_frame_list := rev fs\<rparr>"
    using lru_unpins_append [OF d, of LRUReplacer_init] by (simp add: LRUReplacer_init_def)
  show ?thesis
    unfolding u lru_victims_rev by (simp add: LRUReplacer_init_def)
qed

theorem lru_victims_in_unpin_order_witness:
  "distinct [3, 1, 2 :: nat] \<and>
   lru_victims 3 (lru_unpins [3, 1, 2] LRUReplacer_init) = ([Some 3, Some 1, Some 2], LRUReplacer_init)"
proof -
  have d: "distinct [3, 1, 2 :: nat]" by simp
  show ?thesis using d lru_victims_in_unpin_order [OF d] by (simp add: numeral_3_eq_3)
qed


section \<open>Buffer pool manager: evaluation\<close>

lemmas bpm_defs = BufferPoolManager_init_def PickVictimFrame_def AllPagesPinned_def
  FetchPageImpl_def UnpinPageImpl_def FlushPageImpl_def NewPageImpl_def DeletePageImpl_def
  FlushAllPagesImpl_def disk_init_def disk_ReadPage_def disk_WritePage_def
  disk_AllocatePage_def disk_DeallocatePage_def lru_Victim_def lru_Pin_def lru_Unpin_def
  LRUReplacer_init_def ResetMemory_def Page_init_def INVALID_PAGE_ID_def pool1_def Let_def

section \<open>Fetch of a resident page\<close>

text \<open>
  C1. The claim: Fetch of a resident page increments the frame's pin count, so that a
  frame returned by Fetch has a pin count of at least 1. The code returns the frame
  without touching \<open>pin_count_\<close>: after NewPage the pin count of page 0 is 1 and is
  still 1 after Fetch (the claim says 2); after NewPage and Unpin it is 0, and Fetch
  returns the frame with pin count 0.
\<close>

theorem fetch_resident_never_increments:
  "fst (FetchPageImpl 0 (run [NewPage] pool1)) = Some 0 \<and>
   pin_count (pages (run [NewPage] pool1) ! 0) = 1 \<and>
   pin_count (pages (snd (FetchPageImpl 0 (run [NewPage] pool1))) ! 0) = 1 \<and>
   fst (FetchPageImpl 0 (run [NewPage, Unpin 0 False] pool1)) = Some 0 \<and>
   pin_count (pages (snd (FetchPageImpl 0 (run [NewPage, Unpin 0 False] pool1))) ! 0) = 0"
  by (simp add: bpm_defs)

text \<open>
  C10. Fetch of a page that is in the page table returns its frame and makes no call
  to the page store; the frames (payload, dirty flag, page id, and also the pin count),
  the page table and the free list are unchanged. Only the replacer may change: the
  frame is removed from it when its pin count is not positive.
\<close>

theorem fetch_resident_frame_effect:
  assumes "page_table s pid = Some f"
  shows "fst (FetchPageImpl pid s) = Some f \<and>
         disk_manager (snd (FetchPageImpl pid s)) = disk_manager s \<and>
         pages (snd (FetchPageImpl pid s)) = pages s \<and>
         page_table (snd (FetchPageImpl pid s)) = page_table s \<and>
         free_list (snd (FetchPageImpl pid s)) = free_list s \<and>
         pool_size (snd (FetchPageImpl pid s)) = pool_size s \<and>
         replacer (snd (FetchPageImpl pid s)) =
           (if pin_count (pages s ! f) > 0 then replacer s else lru_Pin f (replacer s))"
  using assms by (simp add: FetchPageImpl_def)

theorem fetch_resident_frame_effect_witness:
  "page_table (run [NewPage, Unpin 0 True] pool1) 0 = Some 0 \<and>
   fst (FetchPageImpl 0 (run [NewPage, Unpin 0 True] pool1)) = Some 0 \<and>
   disk_manager (run [NewPage, Unpin 0 True, Fetch 0] pool1) =
     disk_manager (run [NewPage, Unpin 0 True] pool1) \<and>
   pages (run [NewPage, Unpin 0 True, Fetch 0] pool1) = pages (run [NewPage, Unpin 0 True] pool1) \<and>
   lru_frame_list (replacer (run [NewPage, Unpin 0 True] pool1)) = [0] \<and>
   lru_frame_list (replacer (run [NewPage, Unpin 0 True, Fetch 0] pool1)) = []"
proof -
  have h: "page_table (run [NewPage, Unpin 0 True] pool1) 0 = Some 0"
    by (simp add: bpm_defs)
  have r: "lru_frame_list (replacer (run [NewPage, Unpin 0 True] pool1)) = [0] \<and>
           lru_frame_list (replacer (run [NewPage, Unpin 0 True, Fetch 0] pool1)) = []"
    by (simp add: bpm_defs)
  show ?thesis
    using h r fetch_resident_frame_effect [OF h] by simp
qed

section \<open>Eviction and deletion\<close>

text \<open>
  C2. The claim: a frame with a positive pin count is never chosen by Pick-Victim and
  its page table entry is never removed. In the code, DeletePage puts the frame on the
  free list and leaves it in the replacer. After NewPage, Unpin 0, DeletePage 0,
  NewPage, frame 0 holds page 1 with pin count 1 and is still in the replacer:
  Pick-Victim returns frame 0 and removes the entry of page 1, and so does a Fetch of
  a page that is not resident.
\<close>

theorem pinned_frame_evicted_after_delete:
  "page_table (run [NewPage, Unpin 0 False, DeletePage 0, NewPage] pool1) 1 = Some 0 \<and>
   pin_count (pages (run [NewPage, Unpin 0 False, DeletePage 0, NewPage] pool1) ! 0) = 1 \<and>
   fst (PickVictimFrame (run [NewPage, Unpin 0 False, DeletePage 0, NewPage] pool1)) = Some 0 \<and>
   page_table (snd (PickVictimFrame (run [NewPage, Unpin 0 False, DeletePage 0, NewPage] pool1))) 1 = None \<and>
   fst (FetchPageImpl 5 (run [NewPage, Unpin 0 False, DeletePage 0, NewPage] pool1)) = Some 0 \<and>
   page_table (run [NewPage, Unpin 0 False, DeletePage 0, NewPage, Fetch 5] pool1) 1 = None"
  by (simp add: bpm_defs)

text \<open>
  C3. The claim: a frame is in the replacer exactly when it is resident with pin count
  0; DeletePage removes the deleted frame from the replacer. In the code, after
  NewPage, Unpin 0, DeletePage 0 the page table is empty and frame 0 is on the free
  list and still in the replacer. And after NewPage, Unpin 0, Fetch 0 frame 0 is
  resident with pin count 0 and not in the replacer.
\<close>

theorem deleted_frame_stays_evictable:
  "lru_frame_list (replacer (run [NewPage, Unpin 0 False, DeletePage 0] pool1)) = [0] \<and>
   page_table (run [NewPage, Unpin 0 False, DeletePage 0] pool1) = Map.empty \<and>
   free_list (run [NewPage, Unpin 0 False, DeletePage 0] pool1) = [0] \<and>
   page_table (run [NewPage, Unpin 0 False, Fetch 0] pool1) 0 = Some 0 \<and>
   pin_count (pages (run [NewPage, Unpin 0 False, Fetch 0] pool1) ! 0) = 0 \<and>
   lru_frame_list (replacer (run [NewPage, Unpin 0 False, Fetch 0] pool1)) = []"
  by (simp add: bpm_defs)

text \<open>
  C4, as stated, fails: after NewPage, Unpin 0 with the dirty flag, DeletePage 0, frame
  0 is on the free list with its dirty flag set, and the page store has seen an
  allocation and a deallocation, and no write.
\<close>

theorem delete_dirty_page_no_write_back:
  "free_list (run [NewPage, Unpin 0 True, DeletePage 0] pool1) = [0] \<and>
   is_dirty (pages (run [NewPage, Unpin 0 True, DeletePage 0] pool1) ! 0) \<and>
   calls (disk_manager (run [NewPage, Unpin 0 True, DeletePage 0] pool1)) =
     [AllocatePage 0, DeallocatePage 0]"
  by (simp add: bpm_defs)

text \<open>
  C4, amended. Write-back belongs to eviction: when the free list is empty and the
  replacer's victim is dirty, Pick-Victim writes the frame's payload to the page store
  under the frame's page id. DeletePage of a resident page that is not pinned appends
  the frame to the free list and only asks the page store to deallocate the page id;
  it writes nothing, whether the page is dirty or not.
\<close>

theorem pick_victim_writes_back_delete_does_not:
  "(free_list s = [] \<and> lru_Victim (replacer s) = (Some f, r) \<and> is_dirty (pages s ! f) \<longrightarrow>
      fst (PickVictimFrame s) = Some f \<and>
      calls (disk_manager (snd (PickVictimFrame s))) =
        calls (disk_manager s) @ [WritePage (page_id (pages s ! f)) (data (pages s ! f))] \<and>
      store (disk_manager (snd (PickVictimFrame s))) (page_id (pages s ! f)) = data (pages s ! f)) \<and>
   (page_table s pid = Some g \<and> pin_count (pages s ! g) \<le> 0 \<longrightarrow>
      fst (DeletePageImpl pid s) = True \<and>
      free_list (snd (DeletePageImpl pid s)) = free_list s @ [g] \<and>
      store (disk_manager (snd (DeletePageImpl pid s))) = store (disk_manager s) \<and>
      calls (disk_manager (snd (DeletePageImpl pid s))) =
        calls (disk_manager s) @ [DeallocatePage pid])"
  by (simp add: PickVictimFrame_def DeletePageImpl_def Let_def disk_WritePage_def
      disk_DeallocatePage_def)

theorem pick_victim_writes_back_delete_does_not_witness:
  "(free_list (run [NewPage, Unpin 0 True] pool1) = [] \<and>
    lru_Victim (replacer (run [NewPage, Unpin 0 True] pool1)) = (Some 0, LRUReplacer_init) \<and>
    is_dirty (pages (run [NewPage, Unpin 0 True] pool1) ! 0)) \<and>
   fst (PickVictimFrame (run [NewPage, Unpin 0 True] pool1)) = Some 0 \<and>
   calls (disk_manager (snd (PickVictimFrame (run [NewPage, Unpin 0 True] pool1)))) =
     [AllocatePage 0, WritePage 0 zero_payload] \<and>
   (page_table (run [NewPage, Unpin 0 True] pool1) 0 = Some 0 \<and>
    pin_count (pages (run [NewPage, Unpin 0 True] pool1) ! 0) \<le> 0) \<and>
   fst (DeletePageImpl 0 (run [NewPage, Unpin 0 True] pool1)) = True \<and>
   free_list (snd (DeletePageImpl 0 (run [NewPage, Unpin 0 True] pool1))) = [0] \<and>
   calls (disk_manager (snd (DeletePageImpl 0 (run [NewPage, Unpin 0 True] pool1)))) =
     [AllocatePage 0, DeallocatePage 0]"
proof -
  have a: "free_list (run [NewPage, Unpin 0 True] pool1) = [] \<and>
    lru_Victim (replacer (run [NewPage, Unpin 0 True] pool1)) = (Some 0, LRUReplacer_init) \<and>
    is_dirty (pages (run [NewPage, Unpin 0 True] pool1) ! 0)"
    by (simp add: bpm_defs)
  have b: "page_table (run [NewPage, Unpin 0 True] pool1) 0 = Some 0 \<and>
    pin_count (pages (run [NewPage, Unpin 0 True] pool1) ! 0) \<le> 0"
    by (simp add: bpm_defs)
  have c: "calls (disk_manager (run [NewPage, Unpin 0 True] pool1)) = [AllocatePage 0] \<and>
    page_id (pages (run [NewPage, Unpin 0 True] pool1) ! 0) = 0 \<and>
    data (pages (run [NewPage, Unpin 0 True] pool1) ! 0) = zero_payload \<and>
    free_list (run [NewPage, Unpin 0 True] pool1) = []"
    by (simp add: bpm_defs)
  show ?thesis
    using a b c
      pick_victim_writes_back_delete_does_not
        [of "run [NewPage, Unpin 0 True] pool1" 0 LRUReplacer_init 0 0]
    by simp
qed

text \<open>
  C5. The claim: DeletePage of a page that is not in the page table returns true and
  changes nothing. The code changes nothing and returns false, against its own comment
  ("If P does not exist, return true").
\<close>

theorem delete_absent_page_returns_false:
  "page_table s pid = None \<Longrightarrow> DeletePageImpl pid s = (False, s)"
  by (simp add: DeletePageImpl_def)

theorem delete_absent_page_returns_false_witness:
  "page_table pool1 7 = None \<and> DeletePageImpl 7 pool1 = (False, pool1)"
proof -
  have h: "page_table pool1 7 = None" by (simp add: pool1_def BufferPoolManager_init_def)
  show ?thesis using h delete_absent_page_returns_false [OF h] by simp
qed

section \<open>FlushAll\<close>

text \<open>
  C6. The claim: FlushAll writes every resident page to the page store and clears its
  dirty flag. The body of \<open>FlushAllPagesImpl\<close> is empty: with page 0 resident and dirty,
  FlushAll leaves it dirty and the page store sees no write, where Flush of page 0
  writes it.
\<close>

theorem flush_all_writes_nothing:
  "page_table (run [NewPage, Unpin 0 True] pool1) 0 = Some 0 \<and>
   is_dirty (pages (run [NewPage, Unpin 0 True] pool1) ! 0) \<and>
   is_dirty (pages (run [NewPage, Unpin 0 True, FlushAll] pool1) ! 0) \<and>
   calls (disk_manager (run [NewPage, Unpin 0 True, FlushAll] pool1)) = [AllocatePage 0] \<and>
   calls (disk_manager (run [NewPage, Unpin 0 True, Flush 0] pool1)) =
     [AllocatePage 0, WritePage 0 zero_payload]"
  by (simp add: bpm_defs)

section \<open>Pin counts\<close>

lemma list_all_update:
  "list_all P xs \<Longrightarrow> (i < length xs \<Longrightarrow> P (xs ! i) \<Longrightarrow> P v) \<Longrightarrow> list_all P (xs[i := v])"
  by (cases "i < length xs") (auto simp: list_all_length nth_list_update)

lemma PickVictimFrame_pages: "pages (snd (PickVictimFrame s)) = pages s"
  by (simp add: PickVictimFrame_def Let_def split: prod.splits option.splits)

lemma pins_nonneg_Fetch: "pins_nonneg s \<Longrightarrow> pins_nonneg (snd (FetchPageImpl p s))"
  using PickVictimFrame_pages [of s]
  by (auto simp: pins_nonneg_def FetchPageImpl_def Let_def disk_ReadPage_def
      split: option.splits prod.splits intro!: list_all_update)

lemma pins_nonneg_NewPage: "pins_nonneg s \<Longrightarrow> pins_nonneg (snd (NewPageImpl s))"
  using PickVictimFrame_pages [of s]
  by (auto simp: pins_nonneg_def NewPageImpl_def Let_def disk_AllocatePage_def
      split: option.splits prod.splits intro!: list_all_update)

lemma pins_nonneg_Unpin:
  "pins_nonneg s \<Longrightarrow> caller_ok (Unpin p d) s \<Longrightarrow> pins_nonneg (snd (UnpinPageImpl p d s))"
  by (auto simp: pins_nonneg_def UnpinPageImpl_def Let_def
      split: option.splits intro!: list_all_update)

lemma pins_nonneg_Flush: "pins_nonneg s \<Longrightarrow> pins_nonneg (snd (FlushPageImpl p s))"
  by (auto simp: pins_nonneg_def FlushPageImpl_def Let_def
      split: option.splits intro!: list_all_update)

lemma pins_nonneg_Delete: "pins_nonneg s \<Longrightarrow> pins_nonneg (snd (DeletePageImpl p s))"
  by (auto simp: pins_nonneg_def DeletePageImpl_def Let_def ResetMemory_def
      split: option.splits intro!: list_all_update)

lemma pins_nonneg_step: "pins_nonneg s \<Longrightarrow> caller_ok x s \<Longrightarrow> pins_nonneg (step x s)"
  by (cases x)
    (simp_all add: pins_nonneg_Fetch pins_nonneg_NewPage pins_nonneg_Unpin pins_nonneg_Flush
      pins_nonneg_Delete FlushAllPagesImpl_def del: caller_ok.simps)

lemma pins_nonneg_run: "pins_nonneg s \<Longrightarrow> well_behaved xs s \<Longrightarrow> pins_nonneg (run xs s)"
  by (induction xs arbitrary: s) (simp_all add: pins_nonneg_step)

lemma pins_nonneg_init: "pins_nonneg (BufferPoolManager_init n d)"
  by (simp add: pins_nonneg_def BufferPoolManager_init_def Page_init_def list_all_length)

text \<open>
  C7, as stated, fails: Unpin neither asserts nor clamps. After NewPage and two calls
  of Unpin on page 0, the pin count of its frame is -1.
\<close>

theorem unpin_below_zero:
  "pin_count (pages (run [NewPage, Unpin 0 False, Unpin 0 False] pool1) ! 0) = - 1"
  by (simp add: bpm_defs)

text \<open>
  C7, amended. Unpin of a resident page returns true and decrements the pin count by 1
  whatever its value, with no assertion and no clamping; when the new pin count is not
  positive (also when it is negative) the frame is handed to the replacer by
  \<open>replacer.Unpin\<close>, and otherwise the replacer is left alone. The dirty flag is or-ed
  in, and the page table, the free list and the page store are unchanged. The pin
  count of every frame is non-negative in every state reached from the initial pool by
  a sequence of public operations in which Unpin is never called for a resident page
  whose pin count is not positive.
\<close>

theorem unpin_decrements_unguarded:
  "(page_table s pid = Some f \<and> f < length (pages s) \<longrightarrow>
      fst (UnpinPageImpl pid dirty s) = True \<and>
      pin_count (pages (snd (UnpinPageImpl pid dirty s)) ! f) = pin_count (pages s ! f) - 1 \<and>
      replacer (snd (UnpinPageImpl pid dirty s)) =
        (if pin_count (pages s ! f) - 1 \<le> 0 then lru_Unpin f (replacer s) else replacer s) \<and>
      is_dirty (pages (snd (UnpinPageImpl pid dirty s)) ! f) = (is_dirty (pages s ! f) \<or> dirty) \<and>
      page_table (snd (UnpinPageImpl pid dirty s)) = page_table s \<and>
      free_list (snd (UnpinPageImpl pid dirty s)) = free_list s \<and>
      disk_manager (snd (UnpinPageImpl pid dirty s)) = disk_manager s) \<and>
   (well_behaved xs (BufferPoolManager_init n d) \<longrightarrow>
      list_all (\<lambda>pg. 0 \<le> pin_count pg) (pages (run xs (BufferPoolManager_init n d))))"
proof (intro conjI impI)
  assume h: "page_table s pid = Some f \<and> f < length (pages s)"
  then show "fst (UnpinPageImpl pid dirty s) = True"
    and "pin_count (pages (snd (UnpinPageImpl pid dirty s)) ! f) = pin_count (pages s ! f) - 1"
    and "is_dirty (pages (snd (UnpinPageImpl pid dirty s)) ! f) = (is_dirty (pages s ! f) \<or> dirty)"
    and "page_table (snd (UnpinPageImpl pid dirty s)) = page_table s"
    and "free_list (snd (UnpinPageImpl pid dirty s)) = free_list s"
    and "disk_manager (snd (UnpinPageImpl pid dirty s)) = disk_manager s"
    by (simp_all add: UnpinPageImpl_def Let_def)
  from h show "replacer (snd (UnpinPageImpl pid dirty s)) =
        (if pin_count (pages s ! f) - 1 \<le> 0 then lru_Unpin f (replacer s) else replacer s)"
    by (simp add: UnpinPageImpl_def Let_def)
next
  assume "well_behaved xs (BufferPoolManager_init n d)"
  then show "list_all (\<lambda>pg. 0 \<le> pin_count pg) (pages (run xs (BufferPoolManager_init n d)))"
    using pins_nonneg_run [OF pins_nonneg_init] by (simp add: pins_nonneg_def)
qed

theorem unpin_decrements_unguarded_witness:
  "(page_table (run [NewPage] pool1) 0 = Some 0 \<and> 0 < length (pages (run [NewPage] pool1))) \<and>
   fst (UnpinPageImpl 0 True (run [NewPage] pool1)) = True \<and>
   pin_count (pages (run [NewPage] pool1) ! 0) = 1 \<and>
   pin_count (pages (snd (UnpinPageImpl 0 True (run [NewPage] pool1))) ! 0) = 0 \<and>
   replacer (run [NewPage] pool1) = LRUReplacer_init \<and>
   replacer (snd (UnpinPageImpl 0 True (run [NewPage] pool1))) =
     \<lparr>lru_frame_list = [0], lru_iter_map = {0}\<rparr> \<and>
   is_dirty (pages (snd (UnpinPageImpl 0 True (run [NewPage] pool1))) ! 0) \<and>
   (page_table (run [NewPage, NewPage] (BufferPoolManager_init 2 disk_init)) 1 = Some 1 \<and>
    1 < length (pages (run [NewPage, NewPage] (BufferPoolManager_init 2 disk_init)))) \<and>
   pin_count (pages (run [NewPage, NewPage, Unpin 0 False, Unpin 1 False, Unpin 1 False]
        (BufferPoolManager_init 2 disk_init)) ! 1) = - 1 \<and>
   replacer (snd (UnpinPageImpl 1 False (run [NewPage, NewPage, Unpin 0 False]
        (BufferPoolManager_init 2 disk_init)))) =
     \<lparr>lru_frame_list = [1, 0], lru_iter_map = {1, 0}\<rparr> \<and>
   well_behaved [NewPage, Unpin 0 True, Fetch 0, NewPage, Unpin 1 False, DeletePage 1]
     (BufferPoolManager_init 2 disk_init) \<and>
   list_all (\<lambda>pg. 0 \<le> pin_count pg)
     (pages (run [NewPage, Unpin 0 True, Fetch 0, NewPage, Unpin 1 False, DeletePage 1]
        (BufferPoolManager_init 2 disk_init)))"
proof -
  let ?s = "run [NewPage] pool1"
  let ?t = "run [NewPage, NewPage, Unpin 0 False] (BufferPoolManager_init 2 disk_init)"
  let ?ops = "[NewPage, Unpin 0 True, Fetch 0, NewPage, Unpin 1 False, DeletePage 1]"
  have a: "page_table ?s 0 = Some 0 \<and> 0 < length (pages ?s)"
    by (simp add: bpm_defs)
  have a': "page_table ?t 1 = Some 1 \<and> 1 < length (pages ?t)"
    by (simp add: bpm_defs numeral_2_eq_2)
  have b: "well_behaved ?ops (BufferPoolManager_init 2 disk_init)"
    by (simp add: bpm_defs)
  have c: "pin_count (pages ?s ! 0) = 1 \<and> replacer ?s = LRUReplacer_init \<and>
           \<not> is_dirty (pages ?s ! 0)"
    by (simp add: bpm_defs)
  have c': "pin_count (pages ?t ! 1) = 1 \<and>
            replacer ?t = \<lparr>lru_frame_list = [0], lru_iter_map = {0}\<rparr>"
    by (simp add: bpm_defs numeral_2_eq_2)
  have e: "lru_Unpin 0 LRUReplacer_init = \<lparr>lru_frame_list = [0], lru_iter_map = {0}\<rparr> \<and>
           lru_Unpin 1 \<lparr>lru_frame_list = [0], lru_iter_map = {0}\<rparr> =
             \<lparr>lru_frame_list = [1, 0], lru_iter_map = {1, 0}\<rparr>"
    by (simp add: lru_Unpin_def LRUReplacer_init_def)
  have g: "page_table (run [NewPage, NewPage] (BufferPoolManager_init 2 disk_init)) 1 = Some 1 \<and>
    1 < length (pages (run [NewPage, NewPage] (BufferPoolManager_init 2 disk_init))) \<and>
    pin_count (pages (run [NewPage, NewPage, Unpin 0 False, Unpin 1 False, Unpin 1 False]
        (BufferPoolManager_init 2 disk_init)) ! 1) = - 1"
    by (simp add: bpm_defs numeral_2_eq_2)
  have 1: "fst (UnpinPageImpl 0 True ?s) = True \<and>
      pin_count (pages (snd (UnpinPageImpl 0 True ?s)) ! 0) = 0 \<and>
      replacer (snd (UnpinPageImpl 0 True ?s)) = \<lparr>lru_frame_list = [0], lru_iter_map = {0}\<rparr> \<and>
      is_dirty (pages (snd (UnpinPageImpl 0 True ?s)) ! 0)"
    using a c e unpin_decrements_unguarded [of ?s 0 0 True ?ops 2 disk_init] by simp
  have 2: "replacer (snd (UnpinPageImpl 1 False ?t)) =
             \<lparr>lru_frame_list = [1, 0], lru_iter_map = {1, 0}\<rparr>"
    using a' c' e unpin_decrements_unguarded [of ?t 1 1 False ?ops 2 disk_init] by simp
  have 3: "list_all (\<lambda>pg. 0 \<le> pin_count pg) (pages (run ?ops (BufferPoolManager_init 2 disk_init)))"
    using b unpin_decrements_unguarded [of ?s 0 0 True ?ops 2 disk_init] by blast
  show ?thesis
    using a b c g 1 2 3 by blast
qed


section \<open>CLOCK replacer: the sweep of the hand\<close>

lemma iter_next_mid: "f \<notin> set pre \<Longrightarrow> iter_next (pre @ f # zs) f = list_begin zs"
  by (induction pre) auto

lemma clear_bits_append: "clear_bits (xs @ ys) m = clear_bits ys (clear_bits xs m)"
  by (induction xs arbitrary: m) auto

lemma clear_bits_notin: "f \<notin> set fs \<Longrightarrow> clear_bits fs m f = m f"
  by (induction fs arbitrary: m) auto

lemma clear_bits_in: "f \<in> set fs \<Longrightarrow> clear_bits fs m f = Some False"
proof (induction fs arbitrary: m)
  case Nil
  then show ?case by simp
next
  case (Cons g fs)
  show ?case
  proof (cases "f \<in> set fs")
    case True
    then show ?thesis using Cons.IH by simp
  next
    case False
    then show ?thesis using Cons.prems by (simp add: clear_bits_notin)
  qed
qed

lemma ref_get_clear_notin: "f \<notin> set fs \<Longrightarrow> ref_get (clear_bits fs m) f = ref_get m f"
  by (simp add: ref_get_def clear_bits_notin)

lemma ref_get_clear_in: "f \<in> set fs \<Longrightarrow> \<not> ref_get (clear_bits fs m) f"
  by (simp add: ref_get_def clear_bits_in)

lemma Victim_loop_wrap:
  "clock_hand s = None \<Longrightarrow>
   Victim_loop n s = Victim_loop n (s\<lparr>clock_hand := list_begin (clk_frame_list s)\<rparr>)"
  by (cases n) (auto simp: Let_def)

lemma Victim_loop_clear:
  "clock_hand s = Some f \<Longrightarrow> ref_get (ref_map s) f \<Longrightarrow>
   Victim_loop (Suc n) s =
     Victim_loop n (s\<lparr>ref_map := (ref_map s)(f \<mapsto> False),
                     clock_hand := iter_next (clk_frame_list s) f\<rparr>)"
  by (simp add: Let_def)

lemma Victim_loop_found:
  "clock_hand s = Some f \<Longrightarrow> \<not> ref_get (ref_map s) f \<Longrightarrow> f \<in> clk_iter_map s \<Longrightarrow>
   Victim_loop (Suc n) s =
     Some (f, s\<lparr>clk_frame_list := remove1 f (clk_frame_list s),
                ref_map := (ref_map s)(f := None),
                clk_iter_map := clk_iter_map s - {f},
                clock_hand := iter_next (clk_frame_list s) f\<rparr>)"
  by (simp add: Let_def PinThread_def)

lemma Victim_loop_scan:
  "distinct (clk_frame_list s) \<Longrightarrow> clk_frame_list s = pre @ ys @ rest \<Longrightarrow>
   clock_hand s = list_begin (ys @ rest) \<Longrightarrow> \<forall>f\<in>set ys. ref_get (ref_map s) f \<Longrightarrow>
   Victim_loop (length ys + k) s =
     Victim_loop k (s\<lparr>ref_map := clear_bits ys (ref_map s), clock_hand := list_begin rest\<rparr>)"
proof (induction ys arbitrary: s pre)
  case Nil
  then have "list_begin rest = clock_hand s" by simp
  then show ?case by simp
next
  case (Cons y ys)
  let ?s = "s\<lparr>ref_map := (ref_map s)(y \<mapsto> False), clock_hand := iter_next (clk_frame_list s) y\<rparr>"
  have hand: "clock_hand s = Some y" using Cons.prems by simp
  have y: "ref_get (ref_map s) y" using Cons.prems by simp
  have ypre: "y \<notin> set pre" and yys: "y \<notin> set ys" using Cons.prems by auto
  have nxt: "iter_next (clk_frame_list s) y = list_begin (ys @ rest)"
    using Cons.prems(2) ypre iter_next_mid [of y pre "ys @ rest"] by simp
  have "Victim_loop (length (y # ys) + k) s = Victim_loop (length ys + k) ?s"
    using Victim_loop_clear [OF hand y, of "length ys + k"] by simp
  also have "\<dots> = Victim_loop k (?s\<lparr>ref_map := clear_bits ys (ref_map ?s), clock_hand := list_begin rest\<rparr>)"
  proof (rule Cons.IH [of ?s "pre @ [y]"])
    show "distinct (clk_frame_list ?s)" using Cons.prems by simp
    show "clk_frame_list ?s = (pre @ [y]) @ ys @ rest" using Cons.prems by simp
    show "clock_hand ?s = list_begin (ys @ rest)" using nxt by simp
    show "\<forall>f\<in>set ys. ref_get (ref_map ?s) f"
      using Cons.prems(4) yys by (auto simp: ref_get_def)
  qed
  finally show ?case by simp
qed


lemma Victim_loop_first_clear:
  assumes d: "distinct (A @ T)" and l: "clk_frame_list s = A @ T"
    and h: "clock_hand s = list_begin T" and i: "clk_iter_map s = set (A @ T)"
    and ex: "\<exists>f\<in>set T. \<not> ref_get (ref_map s) f"
  shows "Victim_loop (Suc (length (takeWhile (ref_get (ref_map s)) T) + k)) s =
     Some (hd (dropWhile (ref_get (ref_map s)) T),
       s\<lparr>clk_frame_list := remove1 (hd (dropWhile (ref_get (ref_map s)) T)) (A @ T),
         ref_map := (clear_bits (takeWhile (ref_get (ref_map s)) T) (ref_map s))
                      (hd (dropWhile (ref_get (ref_map s)) T) := None),
         clk_iter_map := set (A @ T) - {hd (dropWhile (ref_get (ref_map s)) T)},
         clock_hand := iter_next (A @ T) (hd (dropWhile (ref_get (ref_map s)) T))\<rparr>)"
proof -
  let ?m = "ref_map s"
  let ?P = "takeWhile (ref_get ?m) T"
  let ?D = "dropWhile (ref_get ?m) T"
  let ?v = "hd ?D"
  have Dne: "?D \<noteq> []" using ex by (simp add: dropWhile_eq_Nil_conv)
  then obtain R where D: "?D = ?v # R" by (cases ?D) auto
  have T: "T = ?P @ ?v # R" using D takeWhile_dropWhile_id [of "ref_get ?m" T] by simp
  have vbit: "\<not> ref_get ?m ?v" using Dne hd_dropWhile by blast
  have vP: "?v \<notin> set ?P" using vbit by (auto dest: set_takeWhileD)
  have vT: "?v \<in> set T" using T by (metis in_set_conv_decomp)
  let ?s = "s\<lparr>ref_map := clear_bits ?P ?m, clock_hand := list_begin (?v # R)\<rparr>"
  have "Victim_loop (length ?P + Suc k) s = Victim_loop (Suc k) ?s"
  proof (rule Victim_loop_scan [of s A ?P "?v # R" "Suc k"])
    show "distinct (clk_frame_list s)" using d l by simp
    show "clk_frame_list s = A @ ?P @ ?v # R" using l T by simp
    show "clock_hand s = list_begin (?P @ ?v # R)" using h T by simp
    show "\<forall>f\<in>set ?P. ref_get ?m f" by (auto dest: set_takeWhileD)
  qed
  also have "\<dots> = Some (?v, ?s\<lparr>clk_frame_list := remove1 ?v (clk_frame_list ?s),
                ref_map := (ref_map ?s)(?v := None),
                clk_iter_map := clk_iter_map ?s - {?v},
                clock_hand := iter_next (clk_frame_list ?s) ?v\<rparr>)"
  proof (rule Victim_loop_found)
    show "clock_hand ?s = Some ?v" by simp
    show "\<not> ref_get (ref_map ?s) ?v" using vbit vP by (simp add: ref_get_clear_notin)
    show "?v \<in> clk_iter_map ?s" using i vT by simp
  qed
  finally show ?thesis using l i by simp
qed


declare Victim_loop.simps [simp del]

lemma takeWhile_stop: "T \<noteq> [] \<Longrightarrow> \<not> Q (hd T) \<Longrightarrow> takeWhile Q (A @ T) = takeWhile Q A"
  by (induction A) (auto simp: takeWhile_eq_Nil_iff)

lemma dropWhile_stop: "T \<noteq> [] \<Longrightarrow> \<not> Q (hd T) \<Longrightarrow> hd (dropWhile Q (A @ T)) = 
    (case dropWhile Q A of [] \<Rightarrow> hd T | x # _ \<Rightarrow> x)"
proof (induction A)
  case Nil
  then show ?case by (cases T) auto
next
  case (Cons a A)
  then show ?case by (auto split: list.splits)
qed

lemma Victim_loop_sweep:
  assumes d: "distinct (A @ T)" and l: "clk_frame_list s = A @ T" and ne: "T \<noteq> []"
    and h: "clock_hand s = list_begin T" and i: "clk_iter_map s = set (A @ T)"
  defines "Q \<equiv> ref_get (ref_map s)"
  defines "P \<equiv> takeWhile Q (T @ A)"
  defines "v \<equiv> (case dropWhile Q (T @ A) of [] \<Rightarrow> hd (T @ A) | x # _ \<Rightarrow> x)"
  shows "Victim_loop (Suc (length P + k)) s =
     Some (v, s\<lparr>clk_frame_list := remove1 v (A @ T),
                ref_map := (clear_bits P (ref_map s))(v := None),
                clk_iter_map := set (A @ T) - {v},
                clock_hand := iter_next (A @ T) v\<rparr>)"
proof (cases "\<exists>f\<in>set T. \<not> Q f")
  case True
  then have P: "P = takeWhile Q T" and D: "dropWhile Q (T @ A) = dropWhile Q T @ A"
    by (auto simp: P_def)
  have "dropWhile Q T \<noteq> []" using True by (simp add: dropWhile_eq_Nil_conv)
  then have v: "v = hd (dropWhile Q T)"
    unfolding v_def D by (cases "dropWhile Q T") auto
  show ?thesis
    using Victim_loop_first_clear [OF d l h i, of k] True
    unfolding P v Q_def by simp
next
  case False
  then have allT: "\<forall>f\<in>set T. Q f" by simp
  let ?m1 = "clear_bits T (ref_map s)"
  let ?Q1 = "ref_get ?m1"
  let ?s1 = "s\<lparr>ref_map := ?m1, clock_hand := list_begin (A @ T)\<rparr>"
  let ?P1 = "takeWhile ?Q1 (A @ T)"
  let ?v1 = "hd (dropWhile ?Q1 (A @ T))"
  have hdT: "hd T \<in> set T" using ne by simp
  have Q1T: "\<not> ?Q1 (hd T)" using hdT by (simp add: ref_get_clear_in)
  have Q1A: "?Q1 a = Q a" if "a \<in> set A" for a
  proof -
    have "a \<notin> set T" using d that by auto
    then show ?thesis by (simp add: Q_def ref_get_clear_notin)
  qed
  have twA: "takeWhile ?Q1 A = takeWhile Q A"
    by (rule takeWhile_cong) (auto simp: Q1A)
  have dwA: "dropWhile ?Q1 A = dropWhile Q A"
    by (rule dropWhile_cong) (auto simp: Q1A)
  have P1: "?P1 = takeWhile Q A"
    using takeWhile_stop [of T ?Q1 A] ne Q1T twA by simp
  have P: "P = T @ ?P1"
    unfolding P1 P_def using allT by simp
  have v: "v = ?v1"
  proof -
    have a: "dropWhile Q (T @ A) = dropWhile Q A" using allT by simp
    have "?v1 = (case dropWhile ?Q1 A of [] \<Rightarrow> hd T | x # _ \<Rightarrow> x)"
      by (rule dropWhile_stop [OF ne]) (rule Q1T)
    then have b: "?v1 = (case dropWhile Q A of [] \<Rightarrow> hd T | x # _ \<Rightarrow> x)"
      by (simp only: dwA)
    have c: "hd (T @ A) = hd T" using ne by simp
    show ?thesis unfolding v_def a b c by (rule refl)
  qed
  have "Victim_loop (length T + Suc (length ?P1 + k)) s =
        Victim_loop (Suc (length ?P1 + k)) (s\<lparr>ref_map := ?m1, clock_hand := list_begin []\<rparr>)"
    by (rule Victim_loop_scan [of s A T "[]"]) (use d l h allT in \<open>auto simp: Q_def\<close>)
  also have "\<dots> = Victim_loop (Suc (length ?P1 + k)) ?s1"
    using Victim_loop_wrap [of "s\<lparr>ref_map := ?m1, clock_hand := None\<rparr>" "Suc (length ?P1 + k)"] l
    by simp
  also have "\<dots> = Some (?v1,
       ?s1\<lparr>clk_frame_list := remove1 ?v1 ([] @ A @ T),
         ref_map := (clear_bits (takeWhile (ref_get (ref_map ?s1)) (A @ T)) (ref_map ?s1))(?v1 := None),
         clk_iter_map := set ([] @ A @ T) - {?v1},
         clock_hand := iter_next ([] @ A @ T) ?v1\<rparr>)"
  proof -
    have d1: "distinct ([] @ A @ T)" using d by simp
    have l1: "clk_frame_list ?s1 = [] @ A @ T" using l by simp
    have h1: "clock_hand ?s1 = list_begin (A @ T)" by simp
    have i1: "clk_iter_map ?s1 = set ([] @ A @ T)" using i by simp
    have e1: "\<exists>f\<in>set (A @ T). \<not> ref_get (ref_map ?s1) f" using hdT Q1T by auto
    show ?thesis
      using Victim_loop_first_clear [OF d1 l1 h1 i1 e1, of k] by simp
  qed
  finally show ?thesis
    unfolding P v by (simp add: clear_bits_append add.assoc)
qed


lemma clock_split:
  assumes wf: "clk_wf s" and ne: "clk_frame_list s \<noteq> []"
  obtains A T where "clk_frame_list s = A @ T" and "T \<noteq> []" and "clock_order s = T @ A"
    and "\<And>n. Victim_loop n s = Victim_loop n (s\<lparr>clock_hand := list_begin T\<rparr>)"
proof (cases "clock_hand s")
  case None
  show ?thesis
  proof (rule that [of "[]" "clk_frame_list s"])
    show "clock_order s = clk_frame_list s @ []" using None by (simp add: clock_order_def)
    show "Victim_loop n s = Victim_loop n (s\<lparr>clock_hand := list_begin (clk_frame_list s)\<rparr>)" for n
      using None by (rule Victim_loop_wrap)
  qed (use ne in simp_all)
next
  case (Some h)
  let ?A = "takeWhile (\<lambda>x. x \<noteq> h) (clk_frame_list s)"
  let ?T = "dropWhile (\<lambda>x. x \<noteq> h) (clk_frame_list s)"
  have hin: "h \<in> set (clk_frame_list s)" using wf Some by (simp add: clk_wf_def)
  then have Tne: "?T \<noteq> []" by (auto simp: dropWhile_eq_Nil_conv)
  then have "hd ?T = h" using hd_dropWhile [of "\<lambda>x. x \<noteq> h" "clk_frame_list s"] by simp
  then have b: "list_begin ?T = Some h" using Tne by (cases ?T) auto
  have e: "s\<lparr>clock_hand := Some h\<rparr> = s" using Some by (cases s) simp
  show ?thesis
  proof (rule that [of ?A ?T])
    show "clock_order s = ?T @ ?A" using Some by (simp add: clock_order_def)
    show "Victim_loop n s = Victim_loop n (s\<lparr>clock_hand := list_begin ?T\<rparr>)" for n
      unfolding b e by (rule refl)
  qed (use Tne in simp_all)
qed

lemma chosen_in_order: "clock_order s \<noteq> [] \<Longrightarrow> chosen s \<in> set (clock_order s)"
proof -
  assume ne: "clock_order s \<noteq> []"
  show ?thesis
  proof (cases "dropWhile (ref_get (ref_map s)) (clock_order s)")
    case Nil
    show ?thesis unfolding chosen_def Nil using ne by simp
  next
    case (Cons v R)
    have "v \<in> set (dropWhile (ref_get (ref_map s)) (clock_order s))" unfolding Cons by simp
    then have "v \<in> set (clock_order s)" by (rule set_dropWhileD)
    then show ?thesis unfolding chosen_def Cons by simp
  qed
qed

lemma chosen_first_clear:
  assumes "\<exists>f\<in>set (clock_order s). \<not> ref_get (ref_map s) f"
  shows "(\<exists>R. clock_order s = passed_over s @ chosen s # R) \<and> \<not> ref_get (ref_map s) (chosen s)"
proof -
  let ?D = "dropWhile (ref_get (ref_map s)) (clock_order s)"
  have ne: "?D \<noteq> []" using assms by (simp add: dropWhile_eq_Nil_conv)
  then obtain v R where D: "?D = v # R" by (cases ?D) auto
  have c: "chosen s = v" using D by (simp add: chosen_def)
  have "clock_order s = passed_over s @ ?D" by (simp add: passed_over_def)
  moreover have "\<not> ref_get (ref_map s) (hd ?D)" using ne hd_dropWhile by blast
  ultimately show ?thesis using D c by auto
qed

lemma chosen_all_set:
  assumes "\<forall>f\<in>set (clock_order s). ref_get (ref_map s) f"
  shows "passed_over s = clock_order s \<and> chosen s = hd (clock_order s)"
proof -
  have D: "dropWhile (ref_get (ref_map s)) (clock_order s) = []"
    using assms by (simp add: dropWhile_eq_Nil_conv)
  have K: "takeWhile (ref_get (ref_map s)) (clock_order s) = clock_order s"
    using assms by (simp add: takeWhile_eq_all_conv)
  show ?thesis unfolding passed_over_def chosen_def D K by simp
qed

lemma clock_order_set:
  "clk_wf s \<Longrightarrow> set (clock_order s) = set (clk_frame_list s)"
proof (cases "clock_hand s")
  case None
  then show ?thesis by (simp add: clock_order_def)
next
  case (Some h)
  let ?K = "takeWhile (\<lambda>x. x \<noteq> h) (clk_frame_list s)"
  let ?D = "dropWhile (\<lambda>x. x \<noteq> h) (clk_frame_list s)"
  have "set (clock_order s) = set (?D @ ?K)" using Some by (simp add: clock_order_def)
  also have "\<dots> = set ?K \<union> set ?D" by (simp only: set_append Un_commute)
  also have "\<dots> = set (?K @ ?D)" by (simp only: set_append)
  also have "\<dots> = set (clk_frame_list s)" by (simp only: takeWhile_dropWhile_id)
  finally show ?thesis .
qed

lemma clk_Victim_nonempty:
  assumes wf: "clk_wf s" and ne: "clk_frame_list s \<noteq> []"
    and fuel: "2 * length (clk_frame_list s) \<le> fuel"
  shows "clk_Victim fuel s =
         Some (Some (chosen s),
           s\<lparr>clk_frame_list := remove1 (chosen s) (clk_frame_list s),
             ref_map := (clear_bits (passed_over s) (ref_map s))(chosen s := None),
             clk_iter_map := clk_iter_map s - {chosen s},
             clock_hand := iter_next (clk_frame_list s) (chosen s)\<rparr>)"
proof (rule clock_split [OF wf ne])
  fix A T
  assume l: "clk_frame_list s = A @ T" and Tne: "T \<noteq> []"
    and o: "clock_order s = T @ A"
    and w: "\<And>n. Victim_loop n s = Victim_loop n (s\<lparr>clock_hand := list_begin T\<rparr>)"
  let ?s = "s\<lparr>clock_hand := list_begin T\<rparr>"
  have d: "distinct (A @ T)" and i: "clk_iter_map s = set (A @ T)"
    using wf l by (simp_all add: clk_wf_def)
  have P: "passed_over s = takeWhile (ref_get (ref_map ?s)) (T @ A)"
    unfolding passed_over_def o by simp
  have v: "chosen s = (case dropWhile (ref_get (ref_map ?s)) (T @ A) of [] \<Rightarrow> hd (T @ A) | x # _ \<Rightarrow> x)"
    unfolding chosen_def o by simp
  have "length (passed_over s) \<le> length (clk_frame_list s)"
    unfolding P l using length_takeWhile_le [of "ref_get (ref_map ?s)" "T @ A"] by simp
  moreover have "0 < length (clk_frame_list s)" using ne by simp
  ultimately have "Suc (length (passed_over s)) \<le> fuel" using fuel by linarith
  then obtain k where k: "fuel = Suc (length (passed_over s) + k)"
    by (metis add_Suc le_iff_add)
  have "Victim_loop fuel s = Victim_loop (Suc (length (passed_over s) + k)) ?s"
    using w k by simp
  also have "\<dots> = Some (chosen s,
       ?s\<lparr>clk_frame_list := remove1 (chosen s) (A @ T),
          ref_map := (clear_bits (passed_over s) (ref_map ?s))(chosen s := None),
          clk_iter_map := set (A @ T) - {chosen s},
          clock_hand := iter_next (A @ T) (chosen s)\<rparr>)"
    unfolding P v
    by (rule Victim_loop_sweep) (use d l Tne i in simp_all)
  finally show ?thesis
    using ne l i by (simp add: clk_Victim_def)
qed


subsection \<open>Well-formedness is an invariant of the public operations\<close>

lemma iter_next_in: "iter_next xs f = Some g \<Longrightarrow> distinct xs \<Longrightarrow> g \<in> set xs \<and> g \<noteq> f"
proof (induction xs)
  case Nil
  then show ?case by simp
next
  case (Cons x xs)
  show ?case
  proof (cases "x = f")
    case True
    then have "list_begin xs = Some g" using Cons.prems by simp
    then have "g \<in> set xs" by (cases xs) auto
    then show ?thesis using True Cons.prems by auto
  next
    case False
    then show ?thesis using Cons by auto
  qed
qed

lemma clk_wf_init: "clk_wf ClockReplacer_init"
  by (simp add: clk_wf_def ClockReplacer_init_def)

lemma clk_wf_Unpin: "clk_wf s \<Longrightarrow> clk_wf (clk_Unpin f s)"
  by (auto simp: clk_wf_def clk_Unpin_def split: option.splits)

lemma clk_wf_PinThread: "clk_wf s \<Longrightarrow> clk_wf (PinThread f s)"
proof -
  assume wf: "clk_wf s"
  show ?thesis
  proof (cases "f \<in> clk_iter_map s")
    case False
    then show ?thesis using wf by (simp add: PinThread_def)
  next
    case True
    have d: "distinct (clk_frame_list s)" using wf by (simp add: clk_wf_def)
    have h: "g \<in> set (clk_frame_list s) \<and> g \<noteq> f" if "iter_next (clk_frame_list s) f = Some g" for g
      using that d by (rule iter_next_in)
    show ?thesis
      using wf True h
      by (auto simp: clk_wf_def PinThread_def Let_def split: option.splits)
  qed
qed

lemma clk_wf_Pin: "clk_wf s \<Longrightarrow> clk_wf (clk_Pin f s)"
  by (simp add: clk_Pin_def clk_wf_PinThread)

lemma Victim_loop_mono: "Victim_loop n s = Some r \<Longrightarrow> Victim_loop (n + k) s = Some r"
proof (induction n arbitrary: s)
  case 0
  then show ?case by (simp add: Victim_loop.simps)
next
  case (Suc n)
  then show ?case
    by (auto simp: Victim_loop.simps Let_def split: option.splits if_splits)
qed

lemma clk_wf_Victim:
  assumes wf: "clk_wf s" and v: "clk_Victim fuel s = Some (r, s')"
  shows "clk_wf s'"
proof (cases "clk_frame_list s = []")
  case True
  then show ?thesis using wf v by (simp add: clk_Victim_def)
next
  case False
  let ?n = "2 * length (clk_frame_list s)"
  obtain f where l: "Victim_loop fuel s = Some (f, s')"
    using v False by (auto simp: clk_Victim_def)
  let ?X = "s\<lparr>clk_frame_list := remove1 (chosen s) (clk_frame_list s),
             ref_map := (clear_bits (passed_over s) (ref_map s))(chosen s := None),
             clk_iter_map := clk_iter_map s - {chosen s},
             clock_hand := iter_next (clk_frame_list s) (chosen s)\<rparr>"
  have "Victim_loop (fuel + ?n) s = Some (f, s')" using l by (rule Victim_loop_mono)
  then have e1: "clk_Victim (fuel + ?n) s = Some (Some f, s')"
    using False by (simp add: clk_Victim_def)
  have e2: "clk_Victim (fuel + ?n) s = Some (Some (chosen s), ?X)"
    by (rule clk_Victim_nonempty [OF wf False]) simp
  have "Some (Some f, s') = Some (Some (chosen s), ?X)"
    using e1 e2 by (rule trans [OF sym])
  then have s': "s' = ?X" by blast
  have d: "distinct (clk_frame_list s)" using wf by (simp add: clk_wf_def)
  have h: "g \<in> set (clk_frame_list s) \<and> g \<noteq> chosen s"
    if "iter_next (clk_frame_list s) (chosen s) = Some g" for g
    using that d by (rule iter_next_in)
  show ?thesis
    unfolding s' using wf h by (auto simp: clk_wf_def split: option.splits)
qed


lemmas clk_defs = ClockReplacer_init_def PinThread_def clk_Pin_def clk_Unpin_def clk_Victim_def
  ref_get_def Let_def clk_wf_def clock_order_def passed_over_def chosen_def clk3_def clk_mid_def

text \<open>
  C9. CLOCK replacer, in a state the public operations produce. When the list is empty,
  Victim returns false and changes nothing. When it is not, the loop returns within
  two passes of the hand (\<open>2 * length\<close> iterations are enough fuel), Victim returns true
  with the chosen entry: the first entry, from the hand on and wrapping at the end,
  whose reference bit is false, or the entry under the hand when every bit is set
  (its bit is false when the hand is back after a full sweep). The entries the hand
  passed over all had their bit set, and have it cleared in the resulting state; the
  chosen entry is erased from the list and both maps, and the hand is on its successor.
\<close>

theorem clock_victim_two_passes:
  assumes wf: "clk_wf s" and fuel: "2 * length (clk_frame_list s) \<le> fuel"
  shows "(clk_frame_list s = [] \<longrightarrow> clk_Victim fuel s = Some (None, s)) \<and>
    (clk_frame_list s \<noteq> [] \<longrightarrow>
       clk_Victim fuel s =
         Some (Some (chosen s),
           s\<lparr>clk_frame_list := remove1 (chosen s) (clk_frame_list s),
             ref_map := (clear_bits (passed_over s) (ref_map s))(chosen s := None),
             clk_iter_map := clk_iter_map s - {chosen s},
             clock_hand := iter_next (clk_frame_list s) (chosen s)\<rparr>) \<and>
       chosen s \<in> set (clk_frame_list s) \<and>
       (\<forall>f\<in>set (passed_over s). ref_get (ref_map s) f) \<and>
       ((\<exists>f\<in>set (clk_frame_list s). \<not> ref_get (ref_map s) f) \<longrightarrow>
          (\<exists>R. clock_order s = passed_over s @ chosen s # R) \<and>
          \<not> ref_get (ref_map s) (chosen s)) \<and>
       ((\<forall>f\<in>set (clk_frame_list s). ref_get (ref_map s) f) \<longrightarrow>
          passed_over s = clock_order s \<and> chosen s = hd (clock_order s)))"
proof (intro conjI impI)
  assume "clk_frame_list s = []"
  then show "clk_Victim fuel s = Some (None, s)" by (simp add: clk_Victim_def)
next
  assume ne: "clk_frame_list s \<noteq> []"
  have so: "set (clock_order s) = set (clk_frame_list s)" using wf by (rule clock_order_set)
  have one: "clock_order s \<noteq> []" using so ne by auto
  show "clk_Victim fuel s =
         Some (Some (chosen s),
           s\<lparr>clk_frame_list := remove1 (chosen s) (clk_frame_list s),
             ref_map := (clear_bits (passed_over s) (ref_map s))(chosen s := None),
             clk_iter_map := clk_iter_map s - {chosen s},
             clock_hand := iter_next (clk_frame_list s) (chosen s)\<rparr>)"
    using wf ne fuel by (rule clk_Victim_nonempty)
  show "chosen s \<in> set (clk_frame_list s)"
    using chosen_in_order [OF one] so by simp
  show "\<forall>f\<in>set (passed_over s). ref_get (ref_map s) f"
    by (auto simp: passed_over_def dest: set_takeWhileD)
  {
    assume "\<exists>f\<in>set (clk_frame_list s). \<not> ref_get (ref_map s) f"
    then have e: "\<exists>f\<in>set (clock_order s). \<not> ref_get (ref_map s) f" using so by simp
    show "\<exists>R. clock_order s = passed_over s @ chosen s # R"
      using chosen_first_clear [OF e] by simp
    show "\<not> ref_get (ref_map s) (chosen s)"
      using chosen_first_clear [OF e] by simp
  }
  {
    assume "\<forall>f\<in>set (clk_frame_list s). ref_get (ref_map s) f"
    then have a: "\<forall>f\<in>set (clock_order s). ref_get (ref_map s) f" using so by simp
    show "passed_over s = clock_order s" using chosen_all_set [OF a] by simp
    show "chosen s = hd (clock_order s)" using chosen_all_set [OF a] by simp
  }
qed

theorem clock_victim_two_passes_witness:
  "(clk_wf clk3 \<and> 2 * length (clk_frame_list clk3) \<le> 6 \<and> clk_frame_list clk3 \<noteq> [] \<and>
    list_all (ref_get (ref_map clk3)) (clk_frame_list clk3)) \<and>
   clk_Victim 6 clk3 =
     Some (Some 0, \<lparr>clk_frame_list = [1, 2], ref_map = [1 \<mapsto> False, 2 \<mapsto> False],
                    clk_iter_map = {2, 1}, clock_hand = Some 1\<rparr>) \<and>
   (clk_wf clk_mid \<and> 2 * length (clk_frame_list clk_mid) \<le> 6 \<and> clk_frame_list clk_mid \<noteq> [] \<and>
    list_ex (\<lambda>f. \<not> ref_get (ref_map clk_mid) f) (clk_frame_list clk_mid)) \<and>
   clk_Victim 6 clk_mid =
     Some (Some 1, \<lparr>clk_frame_list = [0, 3], ref_map = [0 \<mapsto> False, 3 \<mapsto> False],
                    clk_iter_map = {0, 3}, clock_hand = Some 3\<rparr>) \<and>
   clock_order clk_mid = passed_over clk_mid @ chosen clk_mid # []"
proof -
  have a: "clk_wf clk3" by (auto simp add: clk_defs)
  have b: "2 * length (clk_frame_list clk3) \<le> 6" by (simp add: clk_defs)
  have c: "clk_frame_list clk3 \<noteq> []" by (simp add: clk_defs)
  have e: "list_all (ref_get (ref_map clk3)) (clk_frame_list clk3)" by (simp add: clk_defs)
  have v: "chosen clk3 = 0" "passed_over clk3 = [0, 1, 2]"
    by (simp_all add: clk_defs)
  have r: "clk3\<lparr>clk_frame_list := remove1 (chosen clk3) (clk_frame_list clk3),
             ref_map := (clear_bits (passed_over clk3) (ref_map clk3))(chosen clk3 := None),
             clk_iter_map := clk_iter_map clk3 - {chosen clk3},
             clock_hand := iter_next (clk_frame_list clk3) (chosen clk3)\<rparr> =
       \<lparr>clk_frame_list = [1, 2], ref_map = [1 \<mapsto> False, 2 \<mapsto> False],
                    clk_iter_map = {2, 1}, clock_hand = Some 1\<rparr>"
    unfolding v by (auto simp add: clk_defs)
  have a': "clk_wf clk_mid" by (auto simp add: clk_defs)
  have b': "2 * length (clk_frame_list clk_mid) \<le> 6" by (simp add: clk_defs)
  have c': "clk_frame_list clk_mid \<noteq> []" by (simp add: clk_defs)
  have e': "list_ex (\<lambda>f. \<not> ref_get (ref_map clk_mid) f) (clk_frame_list clk_mid)"
    by (simp add: clk_defs)
  have v': "chosen clk_mid = 1" "passed_over clk_mid = [3, 0]" "clock_order clk_mid = [3, 0, 1]"
    by (simp_all add: clk_defs)
  have r': "clk_mid\<lparr>clk_frame_list := remove1 (chosen clk_mid) (clk_frame_list clk_mid),
             ref_map := (clear_bits (passed_over clk_mid) (ref_map clk_mid))(chosen clk_mid := None),
             clk_iter_map := clk_iter_map clk_mid - {chosen clk_mid},
             clock_hand := iter_next (clk_frame_list clk_mid) (chosen clk_mid)\<rparr> =
       \<lparr>clk_frame_list = [0, 3], ref_map = [0 \<mapsto> False, 3 \<mapsto> False],
                    clk_iter_map = {0, 3}, clock_hand = Some 3\<rparr>"
    unfolding v' by (auto simp add: clk_defs)
  have 1: "clk_Victim 6 clk3 =
     Some (Some 0, \<lparr>clk_frame_list = [1, 2], ref_map = [1 \<mapsto> False, 2 \<mapsto> False],
                    clk_iter_map = {2, 1}, clock_hand = Some 1\<rparr>)"
    using c v clock_victim_two_passes [OF a b] unfolding r by simp
  have 2: "clk_Victim 6 clk_mid =
     Some (Some 1, \<lparr>clk_frame_list = [0, 3], ref_map = [0 \<mapsto> False, 3 \<mapsto> False],
                    clk_iter_map = {0, 3}, clock_hand = Some 3\<rparr>)"
    using c' v' clock_victim_two_passes [OF a' b'] unfolding r' by simp
  have 3: "clock_order clk_mid = passed_over clk_mid @ chosen clk_mid # []"
    unfolding v' by simp
  show ?thesis
    using a b c e a' b' c' e' 1 2 3 by blast
qed

end
